theory Spec2Isabelle
  imports Main "HOL-Library.AList"
begin

section \<open>The form component of packages/ui: validator registry and error state\<close>

text \<open>
  The development embeds the validation logic of
  \<^verbatim>\<open>src/packages/ui/src/components/form/CForm.tsx\<close>: the functions
  \<^verbatim>\<open>addValidator\<close>, \<^verbatim>\<open>clearAll\<close>, \<^verbatim>\<open>clearField\<close>,
  \<^verbatim>\<open>validateField\<close> and \<^verbatim>\<open>validateAll\<close> of the component body.

  Conventions of the embedding.
  \<^item> The component's closure variables (\<^verbatim>\<open>validators\<close>, \<^verbatim>\<open>errors\<close>, the
    \<^verbatim>\<open>value\<close> prop) are the fields of a record; every function takes that record and
    returns the record after the call. \<^verbatim>\<open>setErrors(x)\<close> is the update of the
    \<open>errors\<close> field. The functions are run one at a time, each on the state the previous
    one left (overlapping asynchronous calls and stale closures are outside the model).
  \<^item> \<^verbatim>\<open>await rule(v)\<close> has three outcomes: the rule resolves to a value, it throws
    or rejects, or its promise never settles.
  \<^item> Every invocation of a rule is recorded in a call log, as the pair of the field and
    the position of the rule in that field's list, so that "the rule is not evaluated"
    is a statement about the log.
  \<^item> The form value is an object indexed by field name; reading a missing property
    yields \<^verbatim>\<open>undefined\<close> (\<open>None\<close>).
  \<^item> The registry is the plain object of l.83: a read \<^verbatim>\<open>validators[field]\<close> that finds
    no own property goes on to \<^verbatim>\<open>Object.prototype\<close>. The key \<^verbatim>\<open>__proto__\<close> is kept
    in the registry as an entry like any other; the assignment of l.86 would instead
    replace the prototype of the object, and what is then inherited from the rule
    list is outside the model.
\<close>

subsection \<open>Data model\<close>

type_synonym field = string

text \<open>The values of the error mapping, \<^verbatim>\<open>false | string\<close>.\<close>

datatype err_val = EFalse | EStr string

text \<open>JavaScript truthiness, as tested by \<^verbatim>\<open>if (error)\<close>: \<^verbatim>\<open>false\<close> and the empty
  string are falsy, every other string is truthy.\<close>

fun truthy :: "err_val \<Rightarrow> bool" where
  "truthy EFalse = False"
| "truthy (EStr s) = (s \<noteq> [])"

datatype exn = TypeError | Thrown string

text \<open>What \<^verbatim>\<open>await rule(v)\<close> does.\<close>

datatype outcome = Returns err_val | Throws exn | Pending

text \<open>
  Modelled from the spec: the types \<^verbatim>\<open>Validator\<close>, \<^verbatim>\<open>Validators\<close> and \<^verbatim>\<open>Errors\<close>
  are imported from \<^verbatim>\<open>./CFormContext\<close>, which is not among the sources. The spec (section 3)
  gives them: a validator is a function from a field's current value to either
  \<^verbatim>\<open>false\<close> or an error message, possibly asynchronous; \<^verbatim>\<open>Validators\<close> maps a field
  name to an ordered list of validators; \<^verbatim>\<open>Errors\<close> maps a field name to
  \<^verbatim>\<open>false | string\<close>.

  \<^verbatim>\<open>Validators\<close> is a JavaScript object enumerated by \<^verbatim>\<open>for ... in\<close>, so the order
  of its properties matters: it is an association list in property creation order.
\<close>

type_synonym 'v Validator = "'v option \<Rightarrow> outcome"
type_synonym 'v Validators = "(field \<times> 'v Validator list) list"
type_synonym Errors = "field \<rightharpoonup> err_val"

text \<open>
  The state of one form: \<^verbatim>\<open>const validators: Validators = {}\<close>,
  \<^verbatim>\<open>const [errors, setErrors] = useState<Errors>()\<close> (initially \<^verbatim>\<open>undefined\<close>, which
  is \<open>None\<close>) and the prop \<^verbatim>\<open>value\<close>, here \<open>formValue\<close>.
\<close>

record 'v form =
  validators :: "'v Validators"
  errors :: "Errors option"
  formValue :: "field \<rightharpoonup> 'v"

text \<open>Object spread \<^verbatim>\<open>{...errors}\<close>: spreading \<^verbatim>\<open>undefined\<close> gives the empty object.\<close>

fun spread :: "Errors option \<Rightarrow> Errors" where
  "spread None = Map.empty"
| "spread (Some e) = e"

subsection \<open>Synchronous operations\<close>

text \<open>\<^verbatim>\<open>validators[field] = newValidator\<close>: an existing property keeps its place, a
  new one is created last.\<close>

definition addValidator :: "'v form \<Rightarrow> field \<Rightarrow> 'v Validator list \<Rightarrow> 'v form" where
  "addValidator s field newValidator =
     s\<lparr>validators := AList.update field newValidator (validators s)\<rparr>"

definition clearAll :: "'v form \<Rightarrow> 'v form" where
  "clearAll s = s\<lparr>errors := Some Map.empty\<rparr>"

definition clearField :: "'v form \<Rightarrow> field \<Rightarrow> 'v form" where
  "clearField s field = s\<lparr>errors := Some ((spread (errors s))(field \<mapsto> EFalse))\<rparr>"

subsection \<open>Asynchronous computations\<close>

type_synonym call = "field \<times> nat"

datatype 'a completion = Completed 'a | Rejected exn | NeverSettles

type_synonym 'a async = "call list \<times> 'a completion"

definition finish :: "'a \<Rightarrow> 'a async" where
  "finish x = ([], Completed x)"

text \<open>Sequencing: the second computation runs only when the first completed; the logs
  are concatenated.\<close>

definition then_do :: "'a async \<Rightarrow> ('a \<Rightarrow> 'b async) \<Rightarrow> 'b async" where
  "then_do m k =
     (case snd m of
        Completed x \<Rightarrow> (fst m @ fst (k x), snd (k x))
      | Rejected e \<Rightarrow> (fst m, Rejected e)
      | NeverSettles \<Rightarrow> (fst m, NeverSettles))"

text \<open>\<^verbatim>\<open>await rule(value[field])\<close> for the rule at position \<open>i\<close> of the field's list.\<close>

definition call_rule :: "(field \<rightharpoonup> 'v) \<Rightarrow> field \<Rightarrow> nat \<Rightarrow> 'v Validator \<Rightarrow> err_val async" where
  "call_rule v field i rule =
     ([(field, i)],
      case rule (v field) of
        Returns error \<Rightarrow> Completed error
      | Throws e \<Rightarrow> Rejected e
      | Pending \<Rightarrow> NeverSettles)"

subsection \<open>validateField\<close>

text \<open>
  The loop of lines 108 to 114 over the rules that remain, each with its position;
  \<open>hasError\<close> is the loop's variable of that name.
\<close>

fun validateField_loop ::
  "(field \<rightharpoonup> 'v) \<Rightarrow> field \<Rightarrow> (nat \<times> 'v Validator) list \<Rightarrow> err_val \<Rightarrow> err_val async" where
  "validateField_loop v field [] hasError = finish hasError"
| "validateField_loop v field ((i, rule) # rest) hasError =
     then_do (call_rule v field i rule) (\<lambda>error.
       if truthy error then finish error
       else validateField_loop v field rest hasError)"

text \<open>
  The value of \<^verbatim>\<open>validators[field]\<close> at l.105: the rule list of the own property
  when the field is registered; otherwise the member of \<^verbatim>\<open>Object.prototype\<close> of that
  name when there is one (a function, or for \<^verbatim>\<open>__proto__\<close> the prototype object itself:
  truthy and not iterable in every case); otherwise \<^verbatim>\<open>undefined\<close>.
\<close>

definition Object_prototype_names :: "field list" where
  "Object_prototype_names =
     [''constructor'', ''hasOwnProperty'', ''isPrototypeOf'', ''propertyIsEnumerable'',
      ''toLocaleString'', ''toString'', ''valueOf'', ''__proto__'',
      ''__defineGetter__'', ''__defineSetter__'', ''__lookupGetter__'', ''__lookupSetter__'']"

datatype 'v property = Undefined | Own "'v Validator list" | Inherited

definition get_validators :: "'v Validators \<Rightarrow> field \<Rightarrow> 'v property" where
  "get_validators vs field =
     (case map_of vs field of
        Some rules \<Rightarrow> Own rules
      | None \<Rightarrow> if field \<in> set Object_prototype_names then Inherited else Undefined)"

text \<open>
  \<^verbatim>\<open>if (fieldRules)\<close> tests for \<^verbatim>\<open>undefined\<close>: an array, even an empty one, is
  truthy, and so is an inherited member, on which \<^verbatim>\<open>for ... of\<close> throws a TypeError
  because it is not iterable. The result is the call log, how the call ended and the
  state after it; \<^verbatim>\<open>setErrors\<close> is reached only when the loop completed.
\<close>

definition validateField :: "'v form \<Rightarrow> field \<Rightarrow> call list \<times> unit completion \<times> 'v form" where
  "validateField s field =
     (let fieldRules = get_validators (validators s) field;
          r = (case fieldRules of
                 Undefined \<Rightarrow> finish EFalse
               | Own rules \<Rightarrow> validateField_loop (formValue s) field (enumerate 0 rules) EFalse
               | Inherited \<Rightarrow> ([], Rejected TypeError))
      in case snd r of
           Completed hasError \<Rightarrow>
             (fst r, Completed (), s\<lparr>errors := Some ((spread (errors s))(field \<mapsto> hasError))\<rparr>)
         | Rejected e \<Rightarrow> (fst r, Rejected e, s)
         | NeverSettles \<Rightarrow> (fst r, NeverSettles, s))"

subsection \<open>validateAll\<close>

text \<open>
  The order of \<^verbatim>\<open>for (const field in validators)\<close>: the keys that are array indices
  (canonical decimal numerals below \<open>2^32 - 1\<close>) in ascending numeric order, then the
  other keys in creation order.
\<close>

definition is_digit :: "char \<Rightarrow> bool" where
  "is_digit c = (48 \<le> (of_char c :: nat) \<and> (of_char c :: nat) \<le> 57)"

definition digits_to_nat :: "string \<Rightarrow> nat" where
  "digits_to_nat ds = foldl (\<lambda>n c. 10 * n + (of_char c - 48)) 0 ds"

fun canonical :: "string \<Rightarrow> bool" where
  "canonical [] = False"
| "canonical (c # cs) = (if c = CHR ''0'' then cs = [] else True)"

definition is_array_index :: "string \<Rightarrow> bool" where
  "is_array_index k =
     (list_all is_digit k \<and> canonical k \<and> digits_to_nat k < 2 ^ 32 - 1)"

definition for_in_keys :: "(field \<times> 'a) list \<Rightarrow> field list" where
  "for_in_keys obj =
     (let ks = map fst obj
      in sort_key digits_to_nat (filter is_array_index ks)
         @ filter (\<lambda>k. \<not> is_array_index k) ks)"

text \<open>The inner loop of lines 126 to 132; \<open>errs\<close> is the local object \<^verbatim>\<open>errors\<close> of
  \<^verbatim>\<open>validateAll\<close>.\<close>

fun validateAll_rules ::
  "(field \<rightharpoonup> 'v) \<Rightarrow> field \<Rightarrow> (nat \<times> 'v Validator) list \<Rightarrow> Errors \<Rightarrow> Errors async" where
  "validateAll_rules v field [] errs = finish errs"
| "validateAll_rules v field ((i, rule) # rest) errs =
     then_do (call_rule v field i rule) (\<lambda>error.
       if truthy error then finish (errs(field \<mapsto> error))
       else validateAll_rules v field rest errs)"

text \<open>
  The outer loop of lines 124 to 133 over the keys that remain. The keys come from the
  enumeration, so the read of l.125 finds the own property. A key without one would
  make \<^verbatim>\<open>for ... of\<close> throw a TypeError; the keys of \<open>for_in_keys\<close> all have one.
\<close>

fun validateAll_fields ::
  "(field \<rightharpoonup> 'v) \<Rightarrow> 'v Validators \<Rightarrow> field list \<Rightarrow> Errors \<Rightarrow> Errors async" where
  "validateAll_fields v vs [] errs = finish errs"
| "validateAll_fields v vs (field # ks) errs =
     (case map_of vs field of
        None \<Rightarrow> ([], Rejected TypeError)
      | Some rules \<Rightarrow>
          then_do (validateAll_rules v field (enumerate 0 rules) errs)
            (\<lambda>errs'. validateAll_fields v vs ks errs'))"

definition validateAll :: "'v form \<Rightarrow> call list \<times> unit completion \<times> 'v form" where
  "validateAll s =
     (let r = validateAll_fields (formValue s) (validators s) (for_in_keys (validators s)) Map.empty
      in case snd r of
           Completed errs \<Rightarrow> (fst r, Completed (), s\<lparr>errors := Some errs\<rparr>)
         | Rejected e \<Rightarrow> (fst r, Rejected e, s)
         | NeverSettles \<Rightarrow> (fst r, NeverSettles, s))"

subsection \<open>Notions used to state the properties\<close>

text \<open>A rule fails on a value when it returns a truthy message.\<close>

definition fails :: "'v Validator \<Rightarrow> 'v option \<Rightarrow> bool" where
  "fails rule x = (case rule x of Returns error \<Rightarrow> truthy error | Throws e \<Rightarrow> False | Pending \<Rightarrow> False)"

text \<open>The message of the first rule of the list that fails, if one does.\<close>

definition first_failure :: "'v Validator list \<Rightarrow> 'v option \<Rightarrow> err_val option" where
  "first_failure rules x =
     (case find (\<lambda>rule. fails rule x) rules of
        None \<Rightarrow> None
      | Some rule \<Rightarrow> (case rule x of Returns error \<Rightarrow> Some error | Throws e \<Rightarrow> None | Pending \<Rightarrow> None))"

text \<open>
  The outcome of a logged call: \<open>rule_outcome\<close> among the rules of one field, whose
  positions are counted from \<open>n\<close>; \<open>call_outcome\<close> in a registry. \<open>None\<close> when the
  call names no rule.
\<close>

definition rule_outcome ::
  "(field \<rightharpoonup> 'v) \<Rightarrow> field \<Rightarrow> nat \<Rightarrow> 'v Validator list \<Rightarrow> call \<Rightarrow> outcome option" where
  "rule_outcome v f n rules c =
     (if fst c = f \<and> n \<le> snd c \<and> snd c < n + length rules
      then Some ((rules ! (snd c - n)) (v f)) else None)"

definition call_outcome :: "'v Validators \<Rightarrow> (field \<rightharpoonup> 'v) \<Rightarrow> call \<Rightarrow> outcome option" where
  "call_outcome vs v c =
     (case map_of vs (fst c) of
        None \<Rightarrow> None
      | Some rules \<Rightarrow> rule_outcome v (fst c) 0 rules c)"

text \<open>A call passes when the rule returned a falsy value; it returns when the rule
  returned any value.\<close>

definition passes :: "outcome option \<Rightarrow> bool" where
  "passes r = (case r of Some (Returns m) \<Rightarrow> \<not> truthy m | _ \<Rightarrow> False)"

definition returns :: "outcome option \<Rightarrow> bool" where
  "returns r = (case r of Some (Returns m) \<Rightarrow> True | _ \<Rightarrow> False)"

text \<open>The outcome of a rule that stops a computation before its end.\<close>

definition stopped_by :: "'a completion \<Rightarrow> outcome option" where
  "stopped_by r =
     (case r of Completed x \<Rightarrow> None | Rejected e \<Rightarrow> Some (Throws e) | NeverSettles \<Rightarrow> Some Pending)"

subsection \<open>Example rules and forms\<close>

text \<open>The rules of the scenarios of the spec (section 8), and a rule that throws.\<close>

definition required :: "string Validator" where
  "required x =
     (case x of
        None \<Rightarrow> Returns (EStr ''required'')
      | Some s \<Rightarrow> if s = [] then Returns (EStr ''required'') else Returns EFalse)"

definition isEmail :: "string Validator" where
  "isEmail x =
     (case x of
        None \<Rightarrow> Returns (EStr ''not an email'')
      | Some s \<Rightarrow> if CHR ''@'' \<in> set s then Returns EFalse else Returns (EStr ''not an email''))"

definition broken :: "string Validator" where
  "broken x = Throws (Thrown ''broken'')"

text \<open>A form whose only registered field is \<open>email\<close>, before any validation.\<close>

definition email_form :: "string Validator list \<Rightarrow> string \<Rightarrow> string form" where
  "email_form rules e =
     \<lparr>validators = [(''email'', rules)], errors = None, formValue = [''email'' \<mapsto> e]\<rparr>"

text \<open>A form with two registered fields and an error left over for a field that is
  not registered.\<close>

definition signup_form :: "string form" where
  "signup_form =
     \<lparr>validators = [(''email'', [required, isEmail]), (''name'', [])],
      errors = Some [''phone'' \<mapsto> EStr ''bad number'', ''email'' \<mapsto> EFalse],
      formValue = [''email'' \<mapsto> ''nobody'', ''name'' \<mapsto> ''N'']\<rparr>"

section \<open>Properties\<close>

subsection \<open>Sequencing\<close>

lemma then_do_simps [simp]:
  "then_do (cs, Completed x) k = (cs @ fst (k x), snd (k x))"
  "then_do (cs, Rejected e) k = (cs, Rejected e)"
  "then_do (cs, NeverSettles) k = (cs, NeverSettles)"
  by (simp_all add: then_do_def)

subsection \<open>The enumeration order of the registry\<close>

lemma for_in_keys_order:
  "for_in_keys [(''email'', a), (''10'', b), (''2'', c), (''01'', d)] = [''2'', ''10'', ''email'', ''01'']"
  by (simp add: for_in_keys_def is_array_index_def is_digit_def digits_to_nat_def)

lemma set_for_in_keys: "set (for_in_keys obj) = fst ` set obj"
  by (auto simp: for_in_keys_def Let_def)

subsection \<open>The mapping computed by the loops of validateAll\<close>

lemma validateAll_rules_completed:
  "validateAll_rules v f irs E = (cs, Completed E') \<Longrightarrow>
   E' = (case first_failure (map snd irs) (v f) of None \<Rightarrow> E | Some m \<Rightarrow> E(f \<mapsto> m))"
proof (induction irs arbitrary: cs)
  case Nil
  then show ?case by (simp add: finish_def first_failure_def)
next
  case (Cons ir irs)
  obtain i rule where ir: "ir = (i, rule)" by (cases ir)
  show ?case
  proof (cases "rule (v f)")
    case (Returns m)
    show ?thesis
    proof (cases "truthy m")
      case True
      with Cons.prems Returns ir show ?thesis
        by (simp add: call_rule_def finish_def first_failure_def fails_def)
    next
      case False
      with Cons.prems Returns ir
      have "validateAll_rules v f irs E = (tl cs, Completed E')"
        by (cases "validateAll_rules v f irs E") (auto simp: call_rule_def)
      from Cons.IH [OF this] False Returns ir show ?thesis
        by (simp add: first_failure_def fails_def)
    qed
  next
    case (Throws e)
    with Cons.prems ir show ?thesis by (simp add: call_rule_def)
  next
    case Pending
    with Cons.prems ir show ?thesis by (simp add: call_rule_def)
  qed
qed


lemma then_do_Completed_iff:
  "then_do m k = (cs, Completed y) \<longleftrightarrow>
   (\<exists>cs1 x cs2. m = (cs1, Completed x) \<and> k x = (cs2, Completed y) \<and> cs = cs1 @ cs2)"
  by (cases m; cases "snd m") (auto simp: then_do_def prod_eq_iff)

lemma then_do_CompletedE:
  assumes "then_do m k = (cs, Completed y)"
  obtains cs1 x cs2 where "m = (cs1, Completed x)" "k x = (cs2, Completed y)" "cs = cs1 @ cs2"
  using assms unfolding then_do_Completed_iff by blast

lemma validateAll_fields_completed:
  "validateAll_fields v vs ks E = (cs, Completed E') \<Longrightarrow>
   E' g = (if g \<in> set ks
           then (case map_of vs g of
                   None \<Rightarrow> E g
                 | Some rules \<Rightarrow> (case first_failure rules (v g) of None \<Rightarrow> E g | Some m \<Rightarrow> Some m))
           else E g)"
proof (induction ks arbitrary: E cs)
  case Nil
  then show ?case by (simp add: finish_def)
next
  case (Cons k ks)
  from Cons.prems obtain rules where rules: "map_of vs k = Some rules"
    by (cases "map_of vs k") auto
  with Cons.prems
  have "then_do (validateAll_rules v k (enumerate 0 rules) E)
          (\<lambda>errs'. validateAll_fields v vs ks errs') = (cs, Completed E')"
    by simp
  then obtain cs1 E1 cs2 where
    inner: "validateAll_rules v k (enumerate 0 rules) E = (cs1, Completed E1)" and
    outer: "validateAll_fields v vs ks E1 = (cs2, Completed E')"
    by (rule then_do_CompletedE)
  from validateAll_rules_completed [OF inner]
  have E1: "E1 = (case first_failure rules (v k) of None \<Rightarrow> E | Some m \<Rightarrow> E(k \<mapsto> m))"
    by simp
  show ?case
    using Cons.IH [OF outer] E1 rules
    by (auto split: option.splits)
qed


subsection \<open>The calls made by the loops of validateAll\<close>

lemma rule_outcome_Nil [simp]: "rule_outcome v f n [] c = None"
  by (simp add: rule_outcome_def)

lemma rule_outcome_Cons:
  "rule_outcome v f n (r # rs) c =
     (if c = (f, n) then Some (r (v f)) else rule_outcome v f (Suc n) rs c)"
  by (cases c) (auto simp: rule_outcome_def nth_Cons')

lemma rule_outcome_below: "snd c < n \<Longrightarrow> rule_outcome v f n rs c = None"
  by (simp add: rule_outcome_def)

text \<open>Every logged call is a call of a rule all of whose predecessors passed.\<close>

lemma validateAll_rules_log:
  "c \<in> set (fst (validateAll_rules v f (enumerate n rules) E)) \<Longrightarrow>
   fst c = f \<and> n \<le> snd c \<and> snd c < n + length rules \<and>
   (\<forall>j. n \<le> j \<and> j < snd c \<longrightarrow> passes (rule_outcome v f n rules (f, j)))"
proof (induction rules arbitrary: n)
  case Nil
  then show ?case by (simp add: finish_def)
next
  case (Cons r rs)
  show ?case
  proof (cases "c = (f, n)")
    case True
    then show ?thesis by auto
  next
    case False
    with Cons.prems obtain m where m: "r (v f) = Returns m" "\<not> truthy m"
      and c: "c \<in> set (fst (validateAll_rules v f (enumerate (Suc n) rs) E))"
      by (cases "r (v f)") (auto simp: call_rule_def finish_def split: if_splits)
    from Cons.IH [OF c] m show ?thesis
      by (auto simp: rule_outcome_Cons passes_def le_Suc_eq)
  qed
qed

lemma validateAll_rules_returned:
  "validateAll_rules v f (enumerate n rules) E = (cs, Completed E') \<Longrightarrow> c \<in> set cs \<Longrightarrow>
   returns (rule_outcome v f n rules c)"
proof (induction rules arbitrary: n cs)
  case Nil
  then show ?case by (simp add: finish_def)
next
  case (Cons r rs)
  from Cons.prems(1) obtain m where m: "r (v f) = Returns m"
    by (cases "r (v f)") (auto simp: call_rule_def)
  show ?case
  proof (cases "c = (f, n)")
    case True
    with m show ?thesis by (simp add: rule_outcome_Cons returns_def)
  next
    case False
    with Cons.prems m have rest: "validateAll_rules v f (enumerate (Suc n) rs) E = (tl cs, Completed E')"
      and c: "c \<in> set (tl cs)"
      by (auto simp: call_rule_def finish_def prod_eq_iff split: if_splits)
    from Cons.IH [OF rest c] False show ?thesis
      by (simp add: rule_outcome_Cons)
  qed
qed

lemma stopped_by_simps [simp]:
  "stopped_by (Completed x) = None"
  "stopped_by (Rejected e) = Some (Throws e)"
  "stopped_by NeverSettles = Some Pending"
  by (simp_all add: stopped_by_def)

lemma then_do_stoppedE:
  assumes "then_do m k = (cs, r)" and "stopped_by r \<noteq> None"
  obtains "fst m = cs" "stopped_by (snd m) = stopped_by r"
  | cs1 x cs2 where "m = (cs1, Completed x)" "k x = (cs2, r)" "cs = cs1 @ cs2"
  using assms by (cases m; cases "snd m") (auto simp: then_do_def prod_eq_iff)

lemma validateAll_rules_stopped:
  "validateAll_rules v f (enumerate n rules) E = (cs, r) \<Longrightarrow> stopped_by r \<noteq> None \<Longrightarrow>
   cs \<noteq> [] \<and> rule_outcome v f n rules (last cs) = stopped_by r \<and>
   (\<forall>c \<in> set (butlast cs). returns (rule_outcome v f n rules c))"
proof (induction rules arbitrary: n cs)
  case Nil
  then show ?case by (auto simp: finish_def)
next
  case (Cons r1 rs)
  show ?case
  proof (cases "r1 (v f)")
    case (Returns m)
    with Cons.prems have nt: "\<not> truthy m"
      and rest: "validateAll_rules v f (enumerate (Suc n) rs) E = (tl cs, r)"
      and cs: "cs = (f, n) # tl cs"
      by (auto simp: call_rule_def finish_def prod_eq_iff split: if_splits)
    from Cons.IH [OF rest Cons.prems(2)]
    have tl: "tl cs \<noteq> []" "rule_outcome v f (Suc n) rs (last (tl cs)) = stopped_by r"
      "\<forall>c \<in> set (butlast (tl cs)). returns (rule_outcome v f (Suc n) rs c)"
      by auto
    have ne: "last (tl cs) \<noteq> (f, n)"
      using tl(2) Cons.prems(2) by (auto simp: rule_outcome_below)
    have "last cs = last (tl cs)"
      using cs tl(1) by (metis last_ConsR)
    moreover have "butlast cs = (f, n) # butlast (tl cs)"
      using cs tl(1) by (metis butlast.simps(2))
    ultimately show ?thesis
      using tl ne Returns cs by (auto simp: rule_outcome_Cons returns_def)
  next
    case (Throws e')
    with Cons.prems show ?thesis
      by (auto simp: call_rule_def rule_outcome_Cons)
  next
    case Pending
    with Cons.prems show ?thesis
      by (auto simp: call_rule_def rule_outcome_Cons)
  qed
qed

lemma rule_outcome_call_outcome:
  "map_of vs k = Some rules \<Longrightarrow> rule_outcome v k 0 rules c = Some r \<Longrightarrow>
   call_outcome vs v c = Some r"
  by (auto simp: call_outcome_def rule_outcome_def split: if_splits)

lemma returns_SomeE:
  assumes "returns r" obtains m where "r = Some (Returns m)"
  using assms by (auto simp: returns_def split: option.splits outcome.splits)

lemma returns_call_outcome:
  "map_of vs k = Some rules \<Longrightarrow> returns (rule_outcome v k 0 rules c) \<Longrightarrow>
   returns (call_outcome vs v c)"
  by (erule returns_SomeE) (simp add: rule_outcome_call_outcome returns_def)

lemma fst_then_do:
  "fst (then_do m k) = fst m @ (case snd m of Completed x \<Rightarrow> fst (k x) | Rejected e \<Rightarrow> [] | NeverSettles \<Rightarrow> [])"
  by (simp add: then_do_def split: completion.splits)

lemma validateAll_fields_log:
  "c \<in> set (fst (validateAll_fields v vs ks E)) \<Longrightarrow>
   fst c \<in> set ks \<and> call_outcome vs v c \<noteq> None \<and>
   (\<forall>j. j < snd c \<longrightarrow> passes (call_outcome vs v (fst c, j)))"
proof (induction ks arbitrary: E)
  case Nil
  then show ?case by (simp add: finish_def)
next
  case (Cons k ks)
  from Cons.prems obtain rules where rules: "map_of vs k = Some rules"
    by (cases "map_of vs k") auto
  let ?inner = "validateAll_rules v k (enumerate 0 rules) E"
  from Cons.prems rules
  consider (inner) "c \<in> set (fst ?inner)"
    | (outer) E1 where "snd ?inner = Completed E1" "c \<in> set (fst (validateAll_fields v vs ks E1))"
    by (cases "snd ?inner") (auto simp: fst_then_do)
  then show ?case
  proof cases
    case inner
    from validateAll_rules_log [OF inner]
    have c: "fst c = k" "snd c < length rules"
      "\<forall>j. j < snd c \<longrightarrow> passes (rule_outcome v k 0 rules (k, j))"
      by auto
    from c(1,2) rules have "call_outcome vs v c \<noteq> None"
      by (simp add: call_outcome_def rule_outcome_def)
    moreover have "passes (call_outcome vs v (fst c, j))" if "j < snd c" for j
      using c that rules by (simp add: call_outcome_def)
    ultimately show ?thesis using c(1) by simp
  next
    case outer
    from Cons.IH [OF outer(2)] show ?thesis by simp
  qed
qed

lemma validateAll_fields_returned:
  "validateAll_fields v vs ks E = (cs, Completed E') \<Longrightarrow> c \<in> set cs \<Longrightarrow>
   returns (call_outcome vs v c)"
proof (induction ks arbitrary: E cs)
  case Nil
  then show ?case by (simp add: finish_def)
next
  case (Cons k ks)
  from Cons.prems obtain rules where rules: "map_of vs k = Some rules"
    by (cases "map_of vs k") auto
  with Cons.prems(1) obtain cs1 E1 cs2 where
    inner: "validateAll_rules v k (enumerate 0 rules) E = (cs1, Completed E1)" and
    outer: "validateAll_fields v vs ks E1 = (cs2, Completed E')" and
    cs: "cs = cs1 @ cs2"
    by (auto elim: then_do_CompletedE)
  from Cons.prems(2) cs consider "c \<in> set cs1" | "c \<in> set cs2" by auto
  then show ?case
  proof cases
    case 1
    from validateAll_rules_returned [OF inner 1] rules show ?thesis
      by (rule returns_call_outcome [rotated])
  next
    case 2
    from Cons.IH [OF outer 2] show ?thesis .
  qed
qed

lemma validateAll_fields_stopped:
  "validateAll_fields v vs ks E = (cs, r) \<Longrightarrow> stopped_by r \<noteq> None \<Longrightarrow>
   \<forall>k \<in> set ks. map_of vs k \<noteq> None \<Longrightarrow>
   cs \<noteq> [] \<and> call_outcome vs v (last cs) = stopped_by r \<and>
   (\<forall>c \<in> set (butlast cs). returns (call_outcome vs v c))"
proof (induction ks arbitrary: E cs)
  case Nil
  then show ?case by (auto simp: finish_def)
next
  case (Cons k ks)
  from Cons.prems(3) obtain rules where rules: "map_of vs k = Some rules"
    by auto
  with Cons.prems(1)
  have "then_do (validateAll_rules v k (enumerate 0 rules) E)
          (\<lambda>errs'. validateAll_fields v vs ks errs') = (cs, r)"
    by simp
  then show ?case using Cons.prems(2)
  proof (cases rule: then_do_stoppedE)
    case 1
    let ?inner = "validateAll_rules v k (enumerate 0 rules) E"
    have "?inner = (cs, snd ?inner)" "stopped_by (snd ?inner) \<noteq> None"
      using 1 Cons.prems(2) by (simp_all add: prod_eq_iff)
    from validateAll_rules_stopped [OF this] 1(2)
    have cs: "cs \<noteq> []" "rule_outcome v k 0 rules (last cs) = stopped_by r"
      "\<forall>c \<in> set (butlast cs). returns (rule_outcome v k 0 rules c)"
      by auto
    from cs(2) Cons.prems(2) rules have "call_outcome vs v (last cs) = stopped_by r"
      by (auto intro: rule_outcome_call_outcome)
    with cs(1,3) rules show ?thesis
      by (auto intro: returns_call_outcome)
  next
    case (2 cs1 E1 cs2)
    from Cons.IH [OF 2(2) Cons.prems(2)] Cons.prems(3)
    have cs2: "cs2 \<noteq> []" "call_outcome vs v (last cs2) = stopped_by r"
      "\<forall>c \<in> set (butlast cs2). returns (call_outcome vs v c)"
      by auto
    have cs1: "\<forall>c \<in> set cs1. returns (call_outcome vs v c)"
      using validateAll_rules_returned [OF 2(1)] rules
      by (auto intro: returns_call_outcome)
    from cs2(1) 2(3) have "last cs = last cs2" "butlast cs = cs1 @ butlast cs2"
      by (simp_all add: butlast_append)
    with cs1 cs2 2(3) show ?thesis by auto
  qed
qed

subsection \<open>Evaluation of the example forms\<close>

lemma for_in_keys_email: "for_in_keys [(''email'', x)] = [''email'']"
  by (simp add: for_in_keys_def is_array_index_def is_digit_def)

lemma for_in_keys_signup: "for_in_keys [(''email'', x), (''name'', y)] = [''email'', ''name'']"
  by (simp add: for_in_keys_def is_array_index_def is_digit_def)

lemmas eval_defs = validateAll_def validateField_def get_validators_def call_rule_def finish_def
  email_form_def signup_form_def required_def isEmail_def broken_def
  for_in_keys_email for_in_keys_signup



lemma validateAll_signup:
  "validateAll signup_form =
     ([(''email'', 0), (''email'', Suc 0)], Completed (),
      signup_form\<lparr>errors := Some [''email'' \<mapsto> EStr ''not an email'']\<rparr>)"
  by (simp add: eval_defs)

lemma validateAll_broken:
  "validateAll (email_form [required, broken, isEmail] ''x'') =
     ([(''email'', 0), (''email'', Suc 0)], Rejected (Thrown ''broken''),
      email_form [required, broken, isEmail] ''x'')"
  by (simp add: eval_defs)

subsection \<open>The error mapping written by validateAll\<close>



lemma validateAll_CompletedE:
  assumes "validateAll s = (cs, Completed u, s')"
  obtains E where
    "validateAll_fields (formValue s) (validators s) (for_in_keys (validators s)) Map.empty
       = (cs, Completed E)"
    "s' = s\<lparr>errors := Some E\<rparr>"
  using assms by (auto simp: validateAll_def Let_def prod_eq_iff split: completion.splits)

lemma validateAll_errors:
  assumes "validateAll s = (cs, Completed u, s')"
  shows "errors s' \<noteq> None"
    and "spread (errors s') g =
           (case map_of (validators s) g of
              None \<Rightarrow> None
            | Some rules \<Rightarrow> first_failure rules (formValue s g))"
proof -
  from assms obtain E where
    run: "validateAll_fields (formValue s) (validators s) (for_in_keys (validators s)) Map.empty
            = (cs, Completed E)"
    and s': "s' = s\<lparr>errors := Some E\<rparr>"
    by (rule validateAll_CompletedE)
  show "errors s' \<noteq> None" using s' by simp
  have "g \<in> set (for_in_keys (validators s)) \<longleftrightarrow> map_of (validators s) g \<noteq> None"
    by (simp add: set_for_in_keys map_of_eq_None_iff)
  with validateAll_fields_completed [OF run, of g] s'
  show "spread (errors s') g =
           (case map_of (validators s) g of
              None \<Rightarrow> None
            | Some rules \<Rightarrow> first_failure rules (formValue s g))"
    by (auto split: option.splits)
qed




subsection \<open>The call log of validateAll\<close>

lemma validateAll_cases:
  assumes "validateAll s = (cs, r, s')"
  obtains (completed) E where
      "validateAll_fields (formValue s) (validators s) (for_in_keys (validators s)) Map.empty
         = (cs, Completed E)"
      "r = Completed ()" "s' = s\<lparr>errors := Some E\<rparr>"
  | (stopped) rr :: "Errors completion" where
      "validateAll_fields (formValue s) (validators s) (for_in_keys (validators s)) Map.empty
         = (cs, rr)"
      "stopped_by rr \<noteq> None" "stopped_by r = stopped_by rr" "s' = s"
proof -
  let ?run = "validateAll_fields (formValue s) (validators s) (for_in_keys (validators s)) Map.empty"
  have run: "?run = (fst ?run, snd ?run)" by simp
  show thesis
  proof (cases "snd ?run")
    case (Completed E)
    with assms have "cs = fst ?run" "r = Completed ()" "s' = s\<lparr>errors := Some E\<rparr>"
      by (auto simp: validateAll_def Let_def)
    with run Completed show thesis by (intro completed [of E]) simp_all
  next
    case (Rejected e)
    with assms have "cs = fst ?run" "r = Rejected e" "s' = s"
      by (auto simp: validateAll_def Let_def)
    with run Rejected show thesis by (intro stopped [of "snd ?run"]) simp_all
  next
    case NeverSettles
    with assms have "cs = fst ?run" "r = NeverSettles" "s' = s"
      by (auto simp: validateAll_def Let_def)
    with run NeverSettles show thesis by (intro stopped [of "snd ?run"]) simp_all
  qed
qed

lemma for_in_keys_registered: "\<forall>k \<in> set (for_in_keys vs). map_of vs k \<noteq> None"
  by (simp add: set_for_in_keys map_of_eq_None_iff)

lemma validateAll_log:
  assumes "validateAll s = (cs, r, s')" and "c \<in> set cs"
  shows "call_outcome (validators s) (formValue s) c \<noteq> None"
    and "\<forall>j. j < snd c \<longrightarrow> passes (call_outcome (validators s) (formValue s) (fst c, j))"
proof -
  from assms(1) have "cs = fst (validateAll_fields (formValue s) (validators s)
      (for_in_keys (validators s)) Map.empty)"
    by (auto simp: validateAll_def Let_def split: completion.splits)
  with assms(2) validateAll_fields_log
  show "call_outcome (validators s) (formValue s) c \<noteq> None"
    and "\<forall>j. j < snd c \<longrightarrow> passes (call_outcome (validators s) (formValue s) (fst c, j))"
    by blast+
qed

text \<open>
  C3: when a validator invoked during \<open>validateAll\<close> throws or rejects, the call ends
  rejected with that exception, the throwing call is the last one made and is made
  once (no later rule or field is run), and the state after the call is the state
  before it: no error mapping is written.
\<close>

theorem validateAll_throw_atomic:
  assumes "validateAll s = (cs, r, s')"
    and "c \<in> set cs"
    and "call_outcome (validators s) (formValue s) c = Some (Throws e)"
  shows "r = Rejected e \<and> s' = s \<and> c = last cs \<and> c \<notin> set (butlast cs)"
  using assms(1)
proof (cases rule: validateAll_cases)
  case (completed E)
  from validateAll_fields_returned [OF completed(1) assms(2)] assms(3)
  show ?thesis by (simp add: returns_def)
next
  case (stopped rr)
  from validateAll_fields_stopped [OF stopped(1,2) for_in_keys_registered]
  have cs: "cs \<noteq> []"
    "call_outcome (validators s) (formValue s) (last cs) = stopped_by rr"
    "\<forall>c \<in> set (butlast cs). returns (call_outcome (validators s) (formValue s) c)"
    by auto
  from cs(3) assms(3) have nb: "c \<notin> set (butlast cs)"
    by (auto simp: returns_def)
  from cs(1) have "set cs = insert (last cs) (set (butlast cs))"
    by (metis append_butlast_last_id list.simps(15) rotate1.simps(2) set_rotate1)
  with assms(2) nb have last: "c = last cs" by auto
  with cs(2) assms(3) stopped(3) have "stopped_by r = Some (Throws e)" by simp
  then have "r = Rejected e"
    by (cases r) simp_all
  with stopped(4) last nb show ?thesis by simp
qed

theorem validateAll_throw_atomic_witness:
  "validateAll (email_form [required, broken, isEmail] ''x'') =
     ([(''email'', 0), (''email'', Suc 0)], Rejected (Thrown ''broken''),
      email_form [required, broken, isEmail] ''x'')
   \<and> (''email'', Suc 0) \<in> set [(''email'', 0), (''email'', Suc 0)]
   \<and> call_outcome (validators (email_form [required, broken, isEmail] ''x''))
        (formValue (email_form [required, broken, isEmail] ''x'')) (''email'', Suc 0)
       = Some (Throws (Thrown ''broken''))
   \<and> (''email'', Suc 0) = last [(''email'', 0), (''email'', Suc 0)]"
proof -
  have run: "validateAll (email_form [required, broken, isEmail] ''x'') =
     ([(''email'', 0), (''email'', Suc 0)], Rejected (Thrown ''broken''),
      email_form [required, broken, isEmail] ''x'')"
    by (rule validateAll_broken)
  have mem: "(''email'', Suc 0) \<in> set [(''email'', 0), (''email'', Suc 0)]"
    by simp
  have thrown: "call_outcome (validators (email_form [required, broken, isEmail] ''x''))
        (formValue (email_form [required, broken, isEmail] ''x'')) (''email'', Suc 0)
       = Some (Throws (Thrown ''broken''))"
    by (simp add: call_outcome_def rule_outcome_def email_form_def broken_def)
  from validateAll_throw_atomic [OF run mem thrown] run mem thrown
  show ?thesis by simp
qed

text \<open>
  C4: \<open>validateAll\<close> replaces the error mapping: after it completes, every key of the
  new mapping is a field of the registry, a field that is not in the registry has no
  entry whatever was recorded for it before, and the outcome does not depend on the
  error mapping the call started from.
\<close>

theorem validateAll_replaces:
  assumes "validateAll s = (cs, Completed u, s')"
  shows "errors s' \<noteq> None
       \<and> dom (spread (errors s')) \<subseteq> fst ` set (validators s)
       \<and> (\<forall>g. g \<notin> fst ` set (validators s) \<longrightarrow> spread (errors s') g = None)
       \<and> validateAll (s\<lparr>errors := e0\<rparr>) = (cs, Completed u, s')"
proof -
  have absent: "spread (errors s') g = None" if "g \<notin> fst ` set (validators s)" for g
    using validateAll_errors(2) [OF assms, of g] that
    by (simp add: map_of_eq_None_iff [THEN iffD2])
  have keys: "dom (spread (errors s')) \<subseteq> fst ` set (validators s)"
  proof
    fix g assume "g \<in> dom (spread (errors s'))"
    then have "spread (errors s') g \<noteq> None" by (simp add: domIff)
    with absent [of g] show "g \<in> fst ` set (validators s)" by blast
  qed
  have "validateAll (s\<lparr>errors := e0\<rparr>) = (cs, Completed u, s')"
    using assms by (auto simp: validateAll_def Let_def split: completion.splits)
  with keys absent validateAll_errors(1) [OF assms] show ?thesis
    by blast
qed

theorem validateAll_replaces_witness:
  "validateAll signup_form =
     ([(''email'', 0), (''email'', Suc 0)], Completed (),
      signup_form\<lparr>errors := Some [''email'' \<mapsto> EStr ''not an email'']\<rparr>)
   \<and> spread (errors signup_form) ''phone'' = Some (EStr ''bad number'')
   \<and> ''phone'' \<notin> fst ` set (validators signup_form)
   \<and> spread (errors (signup_form\<lparr>errors := Some [''email'' \<mapsto> EStr ''not an email'']\<rparr>)) ''phone'' = None
   \<and> dom (spread (errors (signup_form\<lparr>errors := Some [''email'' \<mapsto> EStr ''not an email'']\<rparr>)))
       \<subseteq> fst ` set (validators signup_form)"
proof -
  have run: "validateAll signup_form =
     ([(''email'', 0), (''email'', Suc 0)], Completed (),
      signup_form\<lparr>errors := Some [''email'' \<mapsto> EStr ''not an email'']\<rparr>)"
    by (rule validateAll_signup)
  have "''phone'' \<notin> fst ` set (validators signup_form)"
    by (simp add: signup_form_def)
  with validateAll_replaces [OF run] run show ?thesis
    by (simp add: signup_form_def)
qed

text \<open>
  C5: for a field without registered rules (absent from the registry, or registered
  with the empty list) \<open>validateAll\<close> calls no rule and adds no entry: when it completes
  the new mapping has no entry for the field, and otherwise the state is unchanged.
\<close>

theorem validateAll_no_rules_no_entry:
  assumes "validateAll s = (cs, r, s')"
    and "map_of (validators s) f = None \<or> map_of (validators s) f = Some []"
  shows "(\<forall>i. (f, i) \<notin> set cs)
       \<and> (case r of
            Completed u \<Rightarrow> errors s' \<noteq> None \<and> spread (errors s') f = None
          | Rejected e \<Rightarrow> s' = s
          | NeverSettles \<Rightarrow> s' = s)"
proof -
  have "(f, i) \<notin> set cs" for i
  proof
    assume "(f, i) \<in> set cs"
    from validateAll_log(1) [OF assms(1) this] assms(2) show False
      by (auto simp: call_outcome_def)
  qed
  moreover have "errors s' \<noteq> None \<and> spread (errors s') f = None" if "r = Completed u" for u
  proof -
    from assms(1) that have run: "validateAll s = (cs, Completed u, s')" by simp
    from validateAll_errors(1) [OF run] validateAll_errors(2) [OF run, of f] assms(2)
    show ?thesis by (auto simp: first_failure_def)
  qed
  moreover have "s' = s" if "stopped_by r \<noteq> None"
    using assms(1) that by (cases rule: validateAll_cases) auto
  ultimately show ?thesis
    by (cases r) auto
qed

theorem validateAll_no_rules_no_entry_witness:
  "validateAll signup_form =
     ([(''email'', 0), (''email'', Suc 0)], Completed (),
      signup_form\<lparr>errors := Some [''email'' \<mapsto> EStr ''not an email'']\<rparr>)
   \<and> map_of (validators signup_form) ''name'' = Some []
   \<and> map_of (validators signup_form) ''phone'' = None
   \<and> spread (errors (signup_form\<lparr>errors := Some [''email'' \<mapsto> EStr ''not an email'']\<rparr>)) ''name'' = None
   \<and> spread (errors (signup_form\<lparr>errors := Some [''email'' \<mapsto> EStr ''not an email'']\<rparr>)) ''phone'' = None"
proof -
  have run: "validateAll signup_form =
     ([(''email'', 0), (''email'', Suc 0)], Completed (),
      signup_form\<lparr>errors := Some [''email'' \<mapsto> EStr ''not an email'']\<rparr>)"
    by (rule validateAll_signup)
  have name: "map_of (validators signup_form) ''name'' = None
      \<or> map_of (validators signup_form) ''name'' = Some []"
    and phone: "map_of (validators signup_form) ''phone'' = None
      \<or> map_of (validators signup_form) ''phone'' = Some []"
    by (simp_all add: signup_form_def)
  from validateAll_no_rules_no_entry [OF run name]
    validateAll_no_rules_no_entry [OF run phone] run
  show ?thesis by (simp add: signup_form_def)
qed

subsection \<open>validateField\<close>

lemma validateField_loop_completed:
  "validateField_loop v f irs h = (cs, Completed h') \<Longrightarrow>
   h' = (case first_failure (map snd irs) (v f) of None \<Rightarrow> h | Some m \<Rightarrow> m)"
proof (induction irs arbitrary: cs)
  case Nil
  then show ?case by (simp add: finish_def first_failure_def)
next
  case (Cons ir irs)
  obtain i rule where ir: "ir = (i, rule)" by (cases ir)
  show ?case
  proof (cases "rule (v f)")
    case (Returns m)
    show ?thesis
    proof (cases "truthy m")
      case True
      with Cons.prems Returns ir show ?thesis
        by (simp add: call_rule_def finish_def first_failure_def fails_def)
    next
      case False
      with Cons.prems Returns ir
      have "validateField_loop v f irs h = (tl cs, Completed h')"
        by (cases "validateField_loop v f irs h") (auto simp: call_rule_def)
      from Cons.IH [OF this] False Returns ir show ?thesis
        by (simp add: first_failure_def fails_def)
    qed
  next
    case (Throws e)
    with Cons.prems ir show ?thesis by (simp add: call_rule_def)
  next
    case Pending
    with Cons.prems ir show ?thesis by (simp add: call_rule_def)
  qed
qed

lemma validateField_loop_pass:
  "\<forall>ir \<in> set irs. passes (Some (snd ir (v f))) \<Longrightarrow>
   validateField_loop v f irs h = (map (\<lambda>ir. (f, fst ir)) irs, Completed h)"
proof (induction irs)
  case Nil
  then show ?case by (simp add: finish_def)
next
  case (Cons ir irs)
  obtain i rule where ir: "ir = (i, rule)" by (cases ir)
  from Cons.prems ir obtain m where "rule (v f) = Returns m" "\<not> truthy m"
    by (auto simp: passes_def split: outcome.splits)
  with Cons ir show ?case
    by (simp add: call_rule_def)
qed




text \<open>
  What \<open>validateField\<close> writes. For a field that names no property of the registry,
  own or inherited, and for a registered field all of whose rules return \<^verbatim>\<open>false\<close>
  (or any falsy value), the call completes and writes \<^verbatim>\<open>false\<close> for the field,
  keeping the other entries. Whenever the call completes, it has written an entry for
  the field. When it does not complete, the state is unchanged.
\<close>

lemma validateField_entry:
  "(get_validators (validators s) f = Undefined \<longrightarrow>
      validateField s f =
        ([], Completed (), s\<lparr>errors := Some ((spread (errors s))(f \<mapsto> EFalse))\<rparr>))
   \<and> (\<forall>rules. map_of (validators s) f = Some rules
          \<and> (\<forall>rule \<in> set rules. passes (Some (rule (formValue s f)))) \<longrightarrow>
      validateField s f =
        (map (\<lambda>i. (f, i)) [0..<length rules], Completed (),
         s\<lparr>errors := Some ((spread (errors s))(f \<mapsto> EFalse))\<rparr>))
   \<and> (\<forall>cs u s'. validateField s f = (cs, Completed u, s') \<longrightarrow>
          s' = s\<lparr>errors := Some ((spread (errors s))(f \<mapsto>
                 (case map_of (validators s) f of
                    None \<Rightarrow> EFalse
                  | Some rules \<Rightarrow>
                      (case first_failure rules (formValue s f) of
                         None \<Rightarrow> EFalse
                       | Some m \<Rightarrow> m))))\<rparr>
          \<and> spread (errors s') f \<noteq> None)
   \<and> (\<forall>cs r s'. validateField s f = (cs, r, s') \<and> stopped_by r \<noteq> None \<longrightarrow> s' = s)"
proof (intro conjI allI impI)
  assume "get_validators (validators s) f = Undefined"
  then show "validateField s f =
      ([], Completed (), s\<lparr>errors := Some ((spread (errors s))(f \<mapsto> EFalse))\<rparr>)"
    by (simp add: validateField_def finish_def)
next
  fix rules
  assume a: "map_of (validators s) f = Some rules
      \<and> (\<forall>rule \<in> set rules. passes (Some (rule (formValue s f))))"
  then have own: "get_validators (validators s) f = Own rules"
    by (simp add: get_validators_def)
  from a have "\<forall>ir \<in> set (enumerate 0 rules). passes (Some (snd ir (formValue s f)))"
    by (auto simp: in_set_enumerate_eq)
  from validateField_loop_pass [where irs = "enumerate 0 rules" and v = "formValue s"
      and f = f and h = EFalse] this
  have "validateField_loop (formValue s) f (enumerate 0 rules) EFalse =
      (map (\<lambda>ir. (f, fst ir)) (enumerate 0 rules), Completed EFalse)" .
  moreover have "map (\<lambda>ir. (f, fst ir)) (enumerate 0 rules)
      = map (\<lambda>i. (f, i)) (map fst (enumerate 0 rules))"
    by (simp add: comp_def del: map_fst_enumerate)
  ultimately have "validateField_loop (formValue s) f (enumerate 0 rules) EFalse =
      (map (\<lambda>i. (f, i)) [0..<length rules], Completed EFalse)"
    by simp
  with own show "validateField s f =
      (map (\<lambda>i. (f, i)) [0..<length rules], Completed (),
       s\<lparr>errors := Some ((spread (errors s))(f \<mapsto> EFalse))\<rparr>)"
    by (simp add: validateField_def)
next
  fix cs u s'
  assume run: "validateField s f = (cs, Completed u, s')"
  show s': "s' = s\<lparr>errors := Some ((spread (errors s))(f \<mapsto>
                 (case map_of (validators s) f of
                    None \<Rightarrow> EFalse
                  | Some rules \<Rightarrow>
                      (case first_failure rules (formValue s f) of
                         None \<Rightarrow> EFalse
                       | Some m \<Rightarrow> m))))\<rparr>"
  proof (cases "get_validators (validators s) f")
    case Undefined
    then have "map_of (validators s) f = None"
      by (simp add: get_validators_def split: option.splits if_splits)
    with run Undefined show ?thesis by (simp add: validateField_def finish_def)
  next
    case (Own rules)
    then have reg: "map_of (validators s) f = Some rules"
      by (simp add: get_validators_def split: option.splits if_splits)
    let ?loop = "validateField_loop (formValue s) f (enumerate 0 rules) EFalse"
    from run Own obtain h where h: "?loop = (cs, Completed h)"
      and s': "s' = s\<lparr>errors := Some ((spread (errors s))(f \<mapsto> h))\<rparr>"
      by (cases "snd ?loop") (auto simp: validateField_def prod_eq_iff)
    from validateField_loop_completed [OF h] s' reg show ?thesis by simp
  next
    case Inherited
    with run show ?thesis by (simp add: validateField_def)
  qed
  show "spread (errors s') f \<noteq> None"
    by (subst s') simp
next
  fix cs r s'
  assume "validateField s f = (cs, r, s') \<and> stopped_by r \<noteq> None"
  then show "s' = s"
    by (auto simp: validateField_def Let_def split: completion.splits)
qed

text \<open>
  C10 holds of every field that names no inherited property of the registry, and fails
  of the others: \<open>toString\<close> is not registered in the form below, the read of l.105
  finds \<^verbatim>\<open>Object.prototype.toString\<close>, the test of l.107 succeeds, and the loop of l.108
  throws a TypeError before any rule is called. \<open>validateField\<close> is rejected and writes
  no entry for the field, where the claim says it writes \<^verbatim>\<open>false\<close>.
\<close>

theorem validateField_inherited_name:
  "map_of (validators (email_form [required, isEmail] ''a@b.com'')) ''toString'' = None
   \<and> validateField (email_form [required, isEmail] ''a@b.com'') ''toString'' =
       ([], Rejected TypeError, email_form [required, isEmail] ''a@b.com'')
   \<and> spread (errors (snd (snd (validateField (email_form [required, isEmail] ''a@b.com'')
         ''toString'')))) ''toString'' = None"
proof -
  have "get_validators (validators (email_form [required, isEmail] ''a@b.com'')) ''toString''
      = Inherited"
    by (simp add: get_validators_def Object_prototype_names_def email_form_def)
  then have "validateField (email_form [required, isEmail] ''a@b.com'') ''toString'' =
       ([], Rejected TypeError, email_form [required, isEmail] ''a@b.com'')"
    by (simp add: validateField_def)
  then show ?thesis
    by (simp add: email_form_def)
qed

subsection \<open>clearAll, clearField and addValidator\<close>

text \<open>
  C6: \<open>clearField f\<close> sets the entry of \<open>f\<close> in the error mapping to \<^verbatim>\<open>false\<close> and leaves
  the entry of every other field, the registry and the form value as they were.
\<close>

theorem clearField_frame:
  "spread (errors (clearField s f)) f = Some EFalse
   \<and> errors (clearField s f) \<noteq> None
   \<and> (\<forall>g. g \<noteq> f \<longrightarrow> spread (errors (clearField s f)) g = spread (errors s) g)
   \<and> validators (clearField s f) = validators s
   \<and> formValue (clearField s f) = formValue s"
  by (simp add: clearField_def)

theorem clearField_frame_witness:
  "spread (errors (clearField signup_form ''phone'')) ''phone'' = Some EFalse
   \<and> ''email'' \<noteq> ''phone''
   \<and> spread (errors (clearField signup_form ''phone'')) ''email'' = spread (errors signup_form) ''email''
   \<and> spread (errors signup_form) ''phone'' = Some (EStr ''bad number'')"
  using clearField_frame [of signup_form "''phone''"]
  by (simp add: signup_form_def)

text \<open>
  C7: after \<open>clearAll\<close> the error state is the empty mapping, whatever was recorded
  before: no field has an entry.
\<close>

theorem clearAll_empty:
  "errors (clearAll s) = Some Map.empty \<and> spread (errors (clearAll s)) f = None"
  by (simp add: clearAll_def)

text \<open>
  C8: after two calls of \<open>addValidator\<close> for the same field the registry maps the field
  to the rule list of the second call, and is the registry that the second call alone
  would have produced: the first list is replaced, not extended.
\<close>

theorem addValidator_replaces:
  "map_of (validators (addValidator (addValidator s f rules1) f rules2)) f = Some rules2
   \<and> validators (addValidator (addValidator s f rules1) f rules2)
       = validators (addValidator s f rules2)"
  by (simp add: addValidator_def AList.update_conv')

subsection \<open>The scenario of the required field\<close>

text \<open>
  C9: with the form value \<^verbatim>\<open>{email: ''}\<close> and \<open>email\<close> registered with a single rule that
  returns \<^verbatim>\<open>'required'\<close> for the empty string, \<open>validateAll\<close> completes and the error
  mapping is \<^verbatim>\<open>{email: 'required'}\<close>, whatever the error state was before.
\<close>

theorem validateAll_required_scenario:
  assumes "rule (Some []) = Returns (EStr ''required'')"
  shows "validateAll \<lparr>validators = [(''email'', [rule])], errors = e0,
                      formValue = [''email'' \<mapsto> []]\<rparr>
       = ([(''email'', 0)], Completed (),
          \<lparr>validators = [(''email'', [rule])],
           errors = Some [''email'' \<mapsto> EStr ''required''],
           formValue = [''email'' \<mapsto> []]\<rparr>)"
  using assms by (simp add: validateAll_def for_in_keys_email call_rule_def finish_def)

theorem validateAll_required_scenario_witness:
  "required (Some []) = Returns (EStr ''required'')
   \<and> validateAll \<lparr>validators = [(''email'', [required])], errors = None,
                   formValue = [''email'' \<mapsto> []]\<rparr>
       = ([(''email'', 0)], Completed (),
          \<lparr>validators = [(''email'', [required])],
           errors = Some [''email'' \<mapsto> EStr ''required''],
           formValue = [''email'' \<mapsto> []]\<rparr>)"
proof -
  have r: "required (Some []) = Returns (EStr ''required'')"
    by (simp add: required_def)
  from validateAll_required_scenario [of required None] r show ?thesis
    by simp
qed

end
